theory Spec2Isabelle
  imports Main
begin

section \<open>Data model\<close>

text \<open>
  The engine in \<^verbatim>\<open>chess_engine.py\<close> consists of \<^verbatim>\<open>evaluate_board\<close>,
  \<^verbatim>\<open>alpha_beta\<close> and \<^verbatim>\<open>get_best_move\<close>. They work on a board object of the
  chess library, which is not part of the repository: the library is a parameter of
  every definition below (a record of its operations), and nothing is assumed about
  it beyond what is written here.
\<close>

subsection \<open>Pieces\<close>

text \<open>The library's colours are booleans: \<^verbatim>\<open>chess.WHITE = True\<close>, \<^verbatim>\<open>chess.BLACK = False\<close>.\<close>

type_synonym color = bool

definition WHITE :: color where
  "WHITE = True"

definition BLACK :: color where
  "BLACK = False"

datatype piece_type = PAWN | KNIGHT | BISHOP | ROOK | QUEEN | KING

record piece =
  piece_type :: piece_type
  color :: color

type_synonym square = nat

text \<open>\<^verbatim>\<open>Piece.symbol()\<close>: the letter of the piece type, upper case for white.\<close>

fun symbol :: "piece \<Rightarrow> char" where
  "symbol pc =
     (case piece_type pc of
        PAWN \<Rightarrow> (if color pc then CHR ''P'' else CHR ''p'')
      | KNIGHT \<Rightarrow> (if color pc then CHR ''N'' else CHR ''n'')
      | BISHOP \<Rightarrow> (if color pc then CHR ''B'' else CHR ''b'')
      | ROOK \<Rightarrow> (if color pc then CHR ''R'' else CHR ''r'')
      | QUEEN \<Rightarrow> (if color pc then CHR ''Q'' else CHR ''q'')
      | KING \<Rightarrow> (if color pc then CHR ''K'' else CHR ''k''))"

subsection \<open>Scores\<close>

text \<open>
  A score is a Python number: an unbounded integer (a material sum) or one of the floats
  \<^verbatim>\<open>-float('inf')\<close> and \<^verbatim>\<open>float('inf')\<close> that initialise the running extrema and the
  window. Python compares an integer with an infinity exactly, so the order is the one of
  the integers with a least and a greatest element added.
\<close>

datatype score = NegInf | Fin int | PosInf

instantiation score :: linorder
begin

fun less_eq_score :: "score \<Rightarrow> score \<Rightarrow> bool" where
  "less_eq_score NegInf y = True"
| "less_eq_score (Fin i) NegInf = False"
| "less_eq_score (Fin i) (Fin j) = (i \<le> j)"
| "less_eq_score (Fin i) PosInf = True"
| "less_eq_score PosInf NegInf = False"
| "less_eq_score PosInf (Fin j) = False"
| "less_eq_score PosInf PosInf = True"

definition less_score :: "score \<Rightarrow> score \<Rightarrow> bool" where
  "less_score x y = (x \<le> y \<and> \<not> y \<le> x)"

instance
proof
  fix x y z :: score
  show "(x < y) = (x \<le> y \<and> \<not> y \<le> x)"
    by (simp add: less_score_def)
  show "x \<le> x"
    by (cases x) simp_all
  show "x \<le> y \<Longrightarrow> y \<le> z \<Longrightarrow> x \<le> z"
    by (cases x; cases y; cases z) simp_all
  show "x \<le> y \<Longrightarrow> y \<le> x \<Longrightarrow> x = y"
    by (cases x; cases y) simp_all
  show "x \<le> y \<or> y \<le> x"
    by (cases x; cases y) auto
qed

end

subsection \<open>Errors and outcomes\<close>

text \<open>
  The exceptions the engine could raise: \<^verbatim>\<open>KeyError\<close> from the lookup in
  \<^verbatim>\<open>piece_values\<close>, \<^verbatim>\<open>IndexError\<close> from \<^verbatim>\<open>board.pop()\<close> on an empty stack and from
  \<^verbatim>\<open>random.choice\<close> on an empty list. A call either returns, raises, or does not come
  back within the given number of nested calls (\<open>Diverges\<close>).
\<close>

datatype py_error = KeyError | IndexError

datatype 'a outcome = Returns 'a | Raises py_error | Diverges

subsection \<open>The rules engine\<close>

text \<open>
  Modelled from the spec: the chess library (python-chess) is imported, not part of the
  repository. Section 6 of the specification lists what the engine consumes from it:
  the side to move, the terminal check, the ordered legal moves, apply and undo, and the
  pieces on the board. A position \<open>'p\<close> is everything these queries depend on.
\<close>

record ('p, 'm) rules_engine =
  turn :: "'p \<Rightarrow> color"
  is_game_over :: "'p \<Rightarrow> bool"
  legal_moves :: "'p \<Rightarrow> 'm list"
  piece_map :: "'p \<Rightarrow> (square \<times> piece) list"
  after_move :: "'p \<Rightarrow> 'm \<Rightarrow> 'p"

text \<open>
  Modelled from the spec: the board object is mutable. \<^verbatim>\<open>push\<close> saves the current
  position on the board's stack and moves forward; \<^verbatim>\<open>pop\<close> restores the most recently
  saved position ("reverses the most recent apply, restoring bit-exact prior state") and
  raises \<^verbatim>\<open>IndexError\<close> on an empty stack. The head of \<open>saved\<close> is the top of the stack.
\<close>

record 'p board =
  position :: 'p
  saved :: "'p list"

definition push :: "('p, 'm) rules_engine \<Rightarrow> 'p board \<Rightarrow> 'm \<Rightarrow> 'p board" where
  "push R b move = \<lparr>position = after_move R (position b) move, saved = position b # saved b\<rparr>"

definition pop :: "'p board \<Rightarrow> py_error + 'p board" where
  "pop b = (case saved b of [] \<Rightarrow> Inl IndexError | p # ps \<Rightarrow> Inr \<lparr>position = p, saved = ps\<rparr>)"

section \<open>The evaluator\<close>

text \<open>The dictionary \<^verbatim>\<open>piece_values\<close> of \<^verbatim>\<open>evaluate_board\<close>, in the order it is written.\<close>

definition piece_values :: "(char \<times> int) list" where
  "piece_values =
     [(CHR ''P'', 1), (CHR ''N'', 3), (CHR ''B'', 3), (CHR ''R'', 5), (CHR ''Q'', 9), (CHR ''K'', 0),
      (CHR ''p'', 1), (CHR ''n'', 3), (CHR ''b'', 3), (CHR ''r'', 5), (CHR ''q'', 9), (CHR ''k'', 0)]"

text \<open>
  The loop \<^verbatim>\<open>for square, piece in board.piece_map().items()\<close> with the running
  \<^verbatim>\<open>value\<close>; a symbol missing from the dictionary raises \<^verbatim>\<open>KeyError\<close>.
\<close>

fun evaluate_loop :: "color \<Rightarrow> (square \<times> piece) list \<Rightarrow> int \<Rightarrow> py_error + int" where
  "evaluate_loop ai_color [] value = Inr value"
| "evaluate_loop ai_color ((sq, pc) # items) value =
     (case map_of piece_values (symbol pc) of
        None \<Rightarrow> Inl KeyError
      | Some v \<Rightarrow>
          if color pc = ai_color then evaluate_loop ai_color items (value + v)
          else evaluate_loop ai_color items (value - v))"

definition evaluate_board :: "('p, 'm) rules_engine \<Rightarrow> 'p board \<Rightarrow> color \<Rightarrow> py_error + int" where
  "evaluate_board R b ai_color = evaluate_loop ai_color (piece_map R (position b)) 0"

text \<open>
  The specification's wording of the evaluator: the sum over the pieces on the board of a
  fixed weight per piece type, added for the perspective's pieces and subtracted for the
  others.
\<close>

fun weight :: "piece_type \<Rightarrow> int" where
  "weight PAWN = 1"
| "weight KNIGHT = 3"
| "weight BISHOP = 3"
| "weight ROOK = 5"
| "weight QUEEN = 9"
| "weight KING = 0"

definition signed_weight :: "color \<Rightarrow> piece \<Rightarrow> int" where
  "signed_weight perspective pc =
     (if color pc = perspective then weight (piece_type pc) else - weight (piece_type pc))"

definition material :: "color \<Rightarrow> (square \<times> piece) list \<Rightarrow> int" where
  "material perspective items = sum_list (map (\<lambda>(sq, pc). signed_weight perspective pc) items)"

section \<open>The search\<close>

text \<open>
  \<^verbatim>\<open>alpha_beta\<close> calls itself inside its two loops. Here each loop is a function of its
  own that takes the recursive call as its argument \<open>search\<close>; \<open>alpha_beta\<close> passes
  itself, at \<^verbatim>\<open>depth - 1\<close>. The loop variables \<^verbatim>\<open>alpha\<close>, \<^verbatim>\<open>beta\<close> and \<^verbatim>\<open>max_eval\<close>
  (\<^verbatim>\<open>min_eval\<close>) are arguments; the \<^verbatim>\<open>break\<close> is the branch that returns at once.
  The moves are the list \<^verbatim>\<open>board.legal_moves\<close> yields for the board at the start of the
  loop. The board is threaded through: the recursive call returns the board as it left
  it, and \<^verbatim>\<open>board.pop()\<close> works on that one.
\<close>

fun max_loop :: "('p board \<Rightarrow> score \<Rightarrow> score \<Rightarrow> (score \<times> 'p board) outcome) \<Rightarrow> ('p, 'm) rules_engine
      \<Rightarrow> 'm list \<Rightarrow> 'p board \<Rightarrow> score \<Rightarrow> score \<Rightarrow> score \<Rightarrow> (score \<times> 'p board) outcome" where
  "max_loop search R [] b alpha beta max_eval = Returns (max_eval, b)"
| "max_loop search R (move # moves) b alpha beta max_eval =
     (case search (push R b move) alpha beta of
        Returns (eval, b1) \<Rightarrow>
          (case pop b1 of
             Inl e \<Rightarrow> Raises e
           | Inr b2 \<Rightarrow>
               if beta \<le> max alpha eval then Returns (max max_eval eval, b2)
               else max_loop search R moves b2 (max alpha eval) beta (max max_eval eval))
      | Raises e \<Rightarrow> Raises e
      | Diverges \<Rightarrow> Diverges)"

fun min_loop :: "('p board \<Rightarrow> score \<Rightarrow> score \<Rightarrow> (score \<times> 'p board) outcome) \<Rightarrow> ('p, 'm) rules_engine
      \<Rightarrow> 'm list \<Rightarrow> 'p board \<Rightarrow> score \<Rightarrow> score \<Rightarrow> score \<Rightarrow> (score \<times> 'p board) outcome" where
  "min_loop search R [] b alpha beta min_eval = Returns (min_eval, b)"
| "min_loop search R (move # moves) b alpha beta min_eval =
     (case search (push R b move) alpha beta of
        Returns (eval, b1) \<Rightarrow>
          (case pop b1 of
             Inl e \<Rightarrow> Raises e
           | Inr b2 \<Rightarrow>
               if min beta eval \<le> alpha then Returns (min min_eval eval, b2)
               else min_loop search R moves b2 alpha (min beta eval) (min min_eval eval))
      | Raises e \<Rightarrow> Raises e
      | Diverges \<Rightarrow> Diverges)"

text \<open>
  \<^verbatim>\<open>depth\<close> is a Python integer: at a negative depth the test \<^verbatim>\<open>depth == 0\<close> never
  holds and only a finished game stops the recursion. The first argument after the rules
  engine bounds the number of nested calls; with none left the call has not come back.
\<close>

fun alpha_beta :: "('p, 'm) rules_engine \<Rightarrow> nat \<Rightarrow> 'p board \<Rightarrow> int \<Rightarrow> score \<Rightarrow> score \<Rightarrow> color
      \<Rightarrow> (score \<times> 'p board) outcome" where
  "alpha_beta R 0 b depth alpha beta ai_color = Diverges"
| "alpha_beta R (Suc n) b depth alpha beta ai_color =
     (if depth = 0 \<or> is_game_over R (position b) then
        (case evaluate_board R b ai_color of
           Inl e \<Rightarrow> Raises e
         | Inr v \<Rightarrow> Returns (Fin v, b))
      else if turn R (position b) = ai_color then
        max_loop (\<lambda>b' alpha' beta'. alpha_beta R n b' (depth - 1) alpha' beta' ai_color) R
          (legal_moves R (position b)) b alpha beta NegInf
      else
        min_loop (\<lambda>b' alpha' beta'. alpha_beta R n b' (depth - 1) alpha' beta' ai_color) R
          (legal_moves R (position b)) b alpha beta PosInf)"

subsection \<open>The root\<close>

text \<open>
  The loop of \<^verbatim>\<open>get_best_move\<close> with its variables \<^verbatim>\<open>best_value\<close> and \<^verbatim>\<open>best_move\<close>
  (\<open>None\<close> as in the source); \<open>search\<close> is the call
  \<^verbatim>\<open>alpha_beta(board, depth - 1, -float('inf'), float('inf'), ai_color)\<close>.
\<close>

fun root_loop :: "('p board \<Rightarrow> (score \<times> 'p board) outcome) \<Rightarrow> ('p, 'm) rules_engine
      \<Rightarrow> 'm list \<Rightarrow> 'p board \<Rightarrow> bool \<Rightarrow> score \<Rightarrow> 'm option \<Rightarrow> ((score \<times> 'm option) \<times> 'p board) outcome" where
  "root_loop search R [] b is_maximizing best_value best_move = Returns ((best_value, best_move), b)"
| "root_loop search R (move # moves) b is_maximizing best_value best_move =
     (case search (push R b move) of
        Returns (board_value, b1) \<Rightarrow>
          (case pop b1 of
             Inl e \<Rightarrow> Raises e
           | Inr b2 \<Rightarrow>
               if is_maximizing \<and> best_value < board_value then
                 root_loop search R moves b2 is_maximizing board_value (Some move)
               else if \<not> is_maximizing \<and> board_value < best_value then
                 root_loop search R moves b2 is_maximizing board_value (Some move)
               else root_loop search R moves b2 is_maximizing best_value best_move)
      | Raises e \<Rightarrow> Raises e
      | Diverges \<Rightarrow> Diverges)"

text \<open>
  \<^verbatim>\<open>random.choice\<close>: the element at a random index, \<^verbatim>\<open>IndexError\<close> on an empty
  sequence. The number drawn is the argument \<open>pick\<close>.
\<close>

definition random_choice :: "nat \<Rightarrow> 'a list \<Rightarrow> py_error + 'a" where
  "random_choice pick xs = (if xs = [] then Inl IndexError else Inr (xs ! (pick mod length xs)))"

text \<open>The state of \<^verbatim>\<open>get_best_move\<close> when its loop is over: best value, best move, board.\<close>

definition root_search :: "('p, 'm) rules_engine \<Rightarrow> nat \<Rightarrow> 'p board \<Rightarrow> int \<Rightarrow> color
      \<Rightarrow> ((score \<times> 'm option) \<times> 'p board) outcome" where
  "root_search R n b depth ai_color =
     (let is_maximizing = (turn R (position b) = ai_color);
          best_value = (if is_maximizing then NegInf else PosInf)
      in root_loop (\<lambda>b'. alpha_beta R n b' (depth - 1) NegInf PosInf ai_color) R
           (legal_moves R (position b)) b is_maximizing best_value None)"

definition get_best_move :: "('p, 'm) rules_engine \<Rightarrow> nat \<Rightarrow> nat \<Rightarrow> 'p board \<Rightarrow> int \<Rightarrow> color
      \<Rightarrow> ('m \<times> 'p board) outcome" where
  "get_best_move R n pick b depth ai_color =
     (case root_search R n b depth ai_color of
        Returns ((best_value, best_move), b1) \<Rightarrow>
          (case best_move of
             None \<Rightarrow>
               (case random_choice pick (legal_moves R (position b1)) of
                  Inl e \<Rightarrow> Raises e
                | Inr move \<Rightarrow> Returns (move, b1))
           | Some move \<Rightarrow> Returns (move, b1))
      | Raises e \<Rightarrow> Raises e
      | Diverges \<Rightarrow> Diverges)"

section \<open>Exhaustive minimax, as the specification words it\<close>

text \<open>
  The unpruned search of section 4.2 without the window: at depth 0 or at a terminal
  position the evaluation, otherwise the maximum (the minimum) over all legal moves of the
  values of the positions they lead to. It works on positions, not on a board object.
  The bound on nested calls is as for \<open>alpha_beta\<close>; \<open>None\<close> is a search that has not come
  back.
\<close>

fun maxs :: "score list \<Rightarrow> score" where
  "maxs [] = NegInf"
| "maxs (x # xs) = max x (maxs xs)"

fun mins :: "score list \<Rightarrow> score" where
  "mins [] = PosInf"
| "mins (x # xs) = min x (mins xs)"

fun minimax :: "('p, 'm) rules_engine \<Rightarrow> nat \<Rightarrow> 'p \<Rightarrow> int \<Rightarrow> color \<Rightarrow> score option" where
  "minimax R 0 p depth perspective = None"
| "minimax R (Suc n) p depth perspective =
     (if depth = 0 \<or> is_game_over R p then Some (Fin (material perspective (piece_map R p)))
      else if turn R p = perspective then
        map_option maxs
          (those (map (\<lambda>m. minimax R n (after_move R p m) (depth - 1) perspective) (legal_moves R p)))
      else
        map_option mins
          (those (map (\<lambda>m. minimax R n (after_move R p m) (depth - 1) perspective) (legal_moves R p))))"

text \<open>
  The root of the unpruned search: every legal move is scored by \<open>minimax\<close> at
  \<open>depth - 1\<close>; the best score is the maximum (minimum) of these, and the move chosen is
  the first one in enumeration order that has it. No move is chosen when no score improves
  on the initial bound.
\<close>

definition first_with :: "score \<Rightarrow> 'm list \<Rightarrow> score list \<Rightarrow> 'm option" where
  "first_with v ms vs = map_option fst (find (\<lambda>(m, x). x = v) (zip ms vs))"

definition minimax_root :: "('p, 'm) rules_engine \<Rightarrow> nat \<Rightarrow> 'p \<Rightarrow> int \<Rightarrow> color
      \<Rightarrow> (score \<times> 'm option) option" where
  "minimax_root R n p depth perspective =
     (case those (map (\<lambda>m. minimax R n (after_move R p m) (depth - 1) perspective) (legal_moves R p)) of
        None \<Rightarrow> None
      | Some vs \<Rightarrow>
          if turn R p = perspective then
            Some (maxs vs, if maxs vs = NegInf then None else first_with (maxs vs) (legal_moves R p) vs)
          else
            Some (mins vs, if mins vs = PosInf then None else first_with (mins vs) (legal_moves R p) vs))"

text \<open>The rules engines in which a position that is not game-over has a legal move.\<close>

definition well_behaved :: "('p, 'm) rules_engine \<Rightarrow> bool" where
  "well_behaved R = (\<forall>p. \<not> is_game_over R p \<longrightarrow> legal_moves R p \<noteq> [])"

section \<open>The values the search computes\<close>

text \<open>
  Auxiliary functions for the proofs: what the two loops and \<open>alpha_beta\<close> compute when
  the board is left out and the position is passed instead. They are shown below to agree
  with the functions above, which also restore the board.
\<close>

fun max_values :: "(score \<Rightarrow> score \<Rightarrow> 'x \<Rightarrow> score option) \<Rightarrow> 'x list \<Rightarrow> score \<Rightarrow> score \<Rightarrow> score
      \<Rightarrow> score option" where
  "max_values f [] alpha beta max_eval = Some max_eval"
| "max_values f (x # xs) alpha beta max_eval =
     (case f alpha beta x of
        None \<Rightarrow> None
      | Some eval \<Rightarrow>
          if beta \<le> max alpha eval then Some (max max_eval eval)
          else max_values f xs (max alpha eval) beta (max max_eval eval))"

fun min_values :: "(score \<Rightarrow> score \<Rightarrow> 'x \<Rightarrow> score option) \<Rightarrow> 'x list \<Rightarrow> score \<Rightarrow> score \<Rightarrow> score
      \<Rightarrow> score option" where
  "min_values f [] alpha beta min_eval = Some min_eval"
| "min_values f (x # xs) alpha beta min_eval =
     (case f alpha beta x of
        None \<Rightarrow> None
      | Some eval \<Rightarrow>
          if min beta eval \<le> alpha then Some (min min_eval eval)
          else min_values f xs alpha (min beta eval) (min min_eval eval))"

fun ab_value :: "('p, 'm) rules_engine \<Rightarrow> nat \<Rightarrow> 'p \<Rightarrow> int \<Rightarrow> score \<Rightarrow> score \<Rightarrow> color \<Rightarrow> score option" where
  "ab_value R 0 p depth alpha beta ai_color = None"
| "ab_value R (Suc n) p depth alpha beta ai_color =
     (if depth = 0 \<or> is_game_over R p then Some (Fin (material ai_color (piece_map R p)))
      else if turn R p = ai_color then
        max_values (\<lambda>alpha' beta' m. ab_value R n (after_move R p m) (depth - 1) alpha' beta' ai_color)
          (legal_moves R p) alpha beta NegInf
      else
        min_values (\<lambda>alpha' beta' m. ab_value R n (after_move R p m) (depth - 1) alpha' beta' ai_color)
          (legal_moves R p) alpha beta PosInf)"

text \<open>The selection the root loop makes among moves paired with their scores.\<close>

fun root_pick :: "bool \<Rightarrow> ('m \<times> score) list \<Rightarrow> score \<Rightarrow> 'm option \<Rightarrow> score \<times> 'm option" where
  "root_pick is_maximizing [] best_value best_move = (best_value, best_move)"
| "root_pick is_maximizing ((move, board_value) # rest) best_value best_move =
     (if is_maximizing \<and> best_value < board_value then
        root_pick is_maximizing rest board_value (Some move)
      else if \<not> is_maximizing \<and> board_value < best_value then
        root_pick is_maximizing rest board_value (Some move)
      else root_pick is_maximizing rest best_value best_move)"

text \<open>
  The result of a search with window \<open>(alpha, beta)\<close> against the exact value: exact
  inside the window, a bound on the exact value outside.
\<close>

definition bounds :: "score \<Rightarrow> score \<Rightarrow> score \<Rightarrow> score \<Rightarrow> bool" where
  "bounds alpha beta x y =
     ((x \<le> alpha \<longrightarrow> y \<le> x) \<and> (alpha < x \<and> x < beta \<longrightarrow> y = x) \<and> (beta \<le> x \<longrightarrow> x \<le> y))"

definition finite_score :: "score \<Rightarrow> bool" where
  "finite_score x = (case x of Fin k \<Rightarrow> True | _ \<Rightarrow> False)"

definition value_of :: "(score \<times> 'b) outcome \<Rightarrow> score option" where
  "value_of r = (case r of Returns (v, b) \<Rightarrow> Some v | _ \<Rightarrow> None)"

definition with_board :: "'b \<Rightarrow> 'a option \<Rightarrow> ('a \<times> 'b) outcome" where
  "with_board b r = (case r of None \<Rightarrow> Diverges | Some v \<Rightarrow> Returns (v, b))"

text \<open>The scores of the root's moves: each is searched with the full window.\<close>

definition child_values :: "('p, 'm) rules_engine \<Rightarrow> nat \<Rightarrow> 'p \<Rightarrow> int \<Rightarrow> color \<Rightarrow> score list option" where
  "child_values R n p depth c =
     those (map (\<lambda>m. ab_value R n (after_move R p m) (depth - 1) NegInf PosInf c) (legal_moves R p))"

section \<open>A small game\<close>

text \<open>
  A rules engine to evaluate the definitions on. A position is the list of the moves
  played; white moves first and the sides alternate; move \<open>0\<close> puts a pawn of the mover
  on the board, any other move a queen; there are two legal moves until three moves
  have been played, then the game is over.
\<close>

definition small_pieces :: "nat list \<Rightarrow> (square \<times> piece) list" where
  "small_pieces p =
     map (\<lambda>(i, m). (i, \<lparr>piece_type = (if m = 0 then PAWN else QUEEN), color = even i\<rparr>))
       (zip [0..<length p] p)"

definition small_game :: "(nat list, nat) rules_engine" where
  "small_game =
     \<lparr>turn = (\<lambda>p. even (length p)),
      is_game_over = (\<lambda>p. 3 \<le> length p),
      legal_moves = (\<lambda>p. if 3 \<le> length p then [] else [0, 1]),
      piece_map = small_pieces,
      after_move = (\<lambda>p m. p @ [m])\<rparr>"

definition start :: "nat list board" where
  "start = \<lparr>position = [], saved = []\<rparr>"

section \<open>Properties of the evaluator\<close>

lemma lookup_symbol: "map_of piece_values (symbol pc) = Some (weight (piece_type pc))"
  by (cases "piece_type pc") (simp_all add: piece_values_def)

lemma evaluate_loop_material:
  "evaluate_loop c items v = Inr (v + material c items)"
proof (induction items arbitrary: v)
  case Nil
  show ?case by (simp add: material_def)
next
  case (Cons it items)
  obtain sq pc where it: "it = (sq, pc)" by (cases it)
  have "map_of piece_values (symbol pc) = Some (weight (piece_type pc))"
    by (rule lookup_symbol)
  then show ?case
    using Cons.IH by (simp add: it material_def signed_weight_def del: symbol.simps)
qed

lemma evaluate_board_material:
  "evaluate_board R b c = Inr (material c (piece_map R (position b)))"
  by (simp add: evaluate_board_def evaluate_loop_material)

lemma material_opposite: "c \<noteq> c' \<Longrightarrow> material c items = - material c' items"
proof (induction items)
  case Nil
  show ?case by (simp add: material_def)
next
  case (Cons it items)
  then show ?case
    by (cases it) (auto simp: material_def signed_weight_def)
qed

section \<open>The search and the values it computes\<close>

lemma pop_push: "pop (push R b m) = Inr b"
  by (simp add: pop_def push_def)

lemma position_push: "position (push R b m) = after_move R (position b) m"
  by (simp add: push_def)

lemma max_loop_values:
  assumes "\<And>m alpha' beta'. m \<in> set ms \<Longrightarrow>
             search (push R b m) alpha' beta' = with_board (push R b m) (f alpha' beta' m)"
  shows "max_loop search R ms b alpha beta max_eval = with_board b (max_values f ms alpha beta max_eval)"
  using assms
proof (induction ms arbitrary: alpha max_eval)
  case Nil
  show ?case by (simp add: with_board_def)
next
  case (Cons m ms)
  have step: "search (push R b m) alpha beta = with_board (push R b m) (f alpha beta m)"
    by (rule Cons.prems) simp
  have IH: "\<And>alpha' max_eval'. max_loop search R ms b alpha' beta max_eval' =
              with_board b (max_values f ms alpha' beta max_eval')"
    by (rule Cons.IH) (simp add: Cons.prems)
  show ?case
  proof (cases "f alpha beta m")
    case None
    then show ?thesis using step by (simp add: with_board_def)
  next
    case (Some e)
    then show ?thesis using step IH by (simp add: with_board_def pop_push)
  qed
qed

lemma min_loop_values:
  assumes "\<And>m alpha' beta'. m \<in> set ms \<Longrightarrow>
             search (push R b m) alpha' beta' = with_board (push R b m) (f alpha' beta' m)"
  shows "min_loop search R ms b alpha beta min_eval = with_board b (min_values f ms alpha beta min_eval)"
  using assms
proof (induction ms arbitrary: beta min_eval)
  case Nil
  show ?case by (simp add: with_board_def)
next
  case (Cons m ms)
  have step: "search (push R b m) alpha beta = with_board (push R b m) (f alpha beta m)"
    by (rule Cons.prems) simp
  have IH: "\<And>beta' min_eval'. min_loop search R ms b alpha beta' min_eval' =
              with_board b (min_values f ms alpha beta' min_eval')"
    by (rule Cons.IH) (simp add: Cons.prems)
  show ?case
  proof (cases "f alpha beta m")
    case None
    then show ?thesis using step by (simp add: with_board_def)
  next
    case (Some e)
    then show ?thesis using step IH by (simp add: with_board_def pop_push)
  qed
qed

lemma alpha_beta_value:
  "alpha_beta R n b depth alpha beta c = with_board b (ab_value R n (position b) depth alpha beta c)"
proof (induction n arbitrary: b depth alpha beta)
  case 0
  show ?case by (simp add: with_board_def)
next
  case (Suc n)
  let ?f = "\<lambda>alpha' beta' m. ab_value R n (after_move R (position b) m) (depth - 1) alpha' beta' c"
  let ?s = "\<lambda>b' alpha' beta'. alpha_beta R n b' (depth - 1) alpha' beta' c"
  have child: "\<And>m alpha' beta'. ?s (push R b m) alpha' beta' = with_board (push R b m) (?f alpha' beta' m)"
    by (simp add: Suc.IH position_push)
  have mx: "\<And>ms m0. max_loop ?s R ms b alpha beta m0 = with_board b (max_values ?f ms alpha beta m0)"
    by (rule max_loop_values) (rule child)
  have mn: "\<And>ms m0. min_loop ?s R ms b alpha beta m0 = with_board b (min_values ?f ms alpha beta m0)"
    by (rule min_loop_values) (rule child)
  show ?case
    by (simp add: mx mn evaluate_board_material with_board_def)
qed

lemma root_loop_values:
  assumes "\<And>m. m \<in> set ms \<Longrightarrow> search (push R b m) = with_board (push R b m) (g m)"
  shows "root_loop search R ms b is_max bv bm =
           with_board b (map_option (\<lambda>vs. root_pick is_max (zip ms vs) bv bm) (those (map g ms)))"
  using assms
proof (induction ms arbitrary: bv bm)
  case Nil
  show ?case by (simp add: with_board_def)
next
  case (Cons m ms)
  have step: "search (push R b m) = with_board (push R b m) (g m)"
    by (rule Cons.prems) simp
  have IH: "\<And>bv' bm'. root_loop search R ms b is_max bv' bm' =
              with_board b (map_option (\<lambda>vs. root_pick is_max (zip ms vs) bv' bm') (those (map g ms)))"
    by (rule Cons.IH) (simp add: Cons.prems)
  show ?case
  proof (cases "g m")
    case None
    then show ?thesis using step by (simp add: with_board_def)
  next
    case (Some v)
    show ?thesis
    proof (cases "those (map g ms)")
      case None
      then show ?thesis using step \<open>g m = Some v\<close> IH
        by (cases is_max; simp add: with_board_def pop_push)
    next
      case (Some vs)
      then show ?thesis using step \<open>g m = Some v\<close> IH
        by (cases is_max; simp add: with_board_def pop_push)
    qed
  qed
qed

lemma root_search_values:
  "root_search R n b depth c =
     with_board b (map_option
       (\<lambda>vs. root_pick (turn R (position b) = c) (zip (legal_moves R (position b)) vs)
                (if turn R (position b) = c then NegInf else PosInf) None)
       (child_values R n (position b) depth c))"
  unfolding root_search_def Let_def child_values_def
  by (rule root_loop_values) (simp add: alpha_beta_value position_push)

lemma root_search_restores:
  "root_search R n b depth c = Returns (r, b') \<Longrightarrow> b' = b"
  by (auto simp: root_search_values with_board_def split: option.splits)

section \<open>Pruning against exhaustive search\<close>

lemma NegInf_least [simp]: "NegInf \<le> (x::score)"
  by simp

lemma PosInf_greatest [simp]: "(x::score) \<le> PosInf"
  by (cases x) simp_all

lemma le_NegInf_iff [simp]: "(x::score) \<le> NegInf \<longleftrightarrow> x = NegInf"
  by (cases x) simp_all

lemma PosInf_le_iff [simp]: "PosInf \<le> (x::score) \<longleftrightarrow> x = PosInf"
  by (cases x) simp_all

lemma max_NegInf [simp]: "max NegInf (x::score) = x" "max x NegInf = x"
  by (simp_all add: max_def)

lemma min_PosInf [simp]: "min PosInf (x::score) = x" "min x PosInf = x"
  by (simp_all add: min_def)

lemma NegInf_less_PosInf [simp]: "NegInf < PosInf"
  by (simp add: less_score_def)

lemma bounds_full_window: "bounds NegInf PosInf x y \<Longrightarrow> x = y"
  unfolding bounds_def
  by (cases x; cases y) (auto simp: less_score_def)

lemma those_map_Some:
  "those (map h xs) = Some ys \<longleftrightarrow> (\<forall>x\<in>set xs. h x \<noteq> None) \<and> ys = map (\<lambda>x. the (h x)) xs"
  by (induction xs arbitrary: ys) (auto split: option.splits)

lemma those_map_None:
  "those (map h xs) = None \<longleftrightarrow> (\<exists>x\<in>set xs. h x = None)"
  by (induction xs) (auto split: option.splits)

lemma max_values_bounds:
  fixes alpha beta m :: score
  assumes child: "\<And>x a. x \<in> set xs \<Longrightarrow> a < beta \<Longrightarrow> \<exists>e. f a beta x = Some e \<and> bounds a beta e (g x)"
    and "m \<le> alpha" and "alpha < beta"
  shows "\<exists>r. max_values f xs alpha beta m = Some r \<and> m \<le> r \<and>
             (r \<le> alpha \<longrightarrow> maxs (map g xs) \<le> r) \<and>
             (alpha < r \<and> r < beta \<longrightarrow> maxs (map g xs) = r) \<and>
             (beta \<le> r \<longrightarrow> r \<le> max m (maxs (map g xs)))"
  using assms
proof (induction xs arbitrary: alpha m)
  case Nil
  then show ?case by auto
next
  case (Cons x xs)
  obtain e where e: "f alpha beta x = Some e" and be: "bounds alpha beta e (g x)"
    using Cons.prems(1) [of x alpha] Cons.prems(3) by auto
  show ?case
  proof (cases "beta \<le> max alpha e")
    case True
    then show ?thesis
      using e be Cons.prems(2,3) by (auto simp: bounds_def max_def split: if_splits)
  next
    case False
    have "\<exists>r. max_values f xs (max alpha e) beta (max m e) = Some r \<and> max m e \<le> r \<and>
             (r \<le> max alpha e \<longrightarrow> maxs (map g xs) \<le> r) \<and>
             (max alpha e < r \<and> r < beta \<longrightarrow> maxs (map g xs) = r) \<and>
             (beta \<le> r \<longrightarrow> r \<le> max (max m e) (maxs (map g xs)))"
    proof (rule Cons.IH)
      show "\<And>x a. x \<in> set xs \<Longrightarrow> a < beta \<Longrightarrow> \<exists>e. f a beta x = Some e \<and> bounds a beta e (g x)"
        using Cons.prems(1) by simp
      show "max m e \<le> max alpha e"
        using Cons.prems(2) by (auto simp: max_def)
      show "max alpha e < beta"
        using False by (simp add: not_le)
    qed
    then obtain r where r: "max_values f xs (max alpha e) beta (max m e) = Some r"
      and r1: "max m e \<le> r"
      and r2: "r \<le> max alpha e \<longrightarrow> maxs (map g xs) \<le> r"
      and r3: "max alpha e < r \<and> r < beta \<longrightarrow> maxs (map g xs) = r"
      and r4: "beta \<le> r \<longrightarrow> r \<le> max (max m e) (maxs (map g xs))"
      by blast
    have res: "max_values f (x # xs) alpha beta m = Some r"
      using e False r by simp
    have c1: "m \<le> r" using r1 by simp
    have c2: "r \<le> alpha \<longrightarrow> maxs (map g (x # xs)) \<le> r"
      using r1 r2 be by (auto simp: bounds_def max_def split: if_splits)
    have c3: "alpha < r \<and> r < beta \<longrightarrow> maxs (map g (x # xs)) = r"
      using r1 r2 r3 be Cons.prems(2) by (auto simp: bounds_def max_def split: if_splits)
    have c4: "beta \<le> r \<longrightarrow> r \<le> max m (maxs (map g (x # xs)))"
      using r4 False by (auto simp: max_def split: if_splits)
    show ?thesis using res c1 c2 c3 c4 by blast
  qed
qed


lemma min_values_bounds:
  fixes alpha beta m :: score
  assumes child: "\<And>x b. x \<in> set xs \<Longrightarrow> alpha < b \<Longrightarrow> \<exists>e. f alpha b x = Some e \<and> bounds alpha b e (g x)"
    and "beta \<le> m" and "alpha < beta"
  shows "\<exists>r. min_values f xs alpha beta m = Some r \<and> r \<le> m \<and>
             (beta \<le> r \<longrightarrow> r \<le> mins (map g xs)) \<and>
             (alpha < r \<and> r < beta \<longrightarrow> mins (map g xs) = r) \<and>
             (r \<le> alpha \<longrightarrow> min m (mins (map g xs)) \<le> r)"
  using assms
proof (induction xs arbitrary: beta m)
  case Nil
  then show ?case by auto
next
  case (Cons x xs)
  obtain e where e: "f alpha beta x = Some e" and be: "bounds alpha beta e (g x)"
    using Cons.prems(1) [of x beta] Cons.prems(3) by auto
  show ?case
  proof (cases "min beta e \<le> alpha")
    case True
    then show ?thesis
      using e be Cons.prems(2,3) by (auto simp: bounds_def min_def split: if_splits)
  next
    case False
    have "\<exists>r. min_values f xs alpha (min beta e) (min m e) = Some r \<and> r \<le> min m e \<and>
             (min beta e \<le> r \<longrightarrow> r \<le> mins (map g xs)) \<and>
             (alpha < r \<and> r < min beta e \<longrightarrow> mins (map g xs) = r) \<and>
             (r \<le> alpha \<longrightarrow> min (min m e) (mins (map g xs)) \<le> r)"
    proof (rule Cons.IH)
      show "\<And>x b. x \<in> set xs \<Longrightarrow> alpha < b \<Longrightarrow> \<exists>e. f alpha b x = Some e \<and> bounds alpha b e (g x)"
        using Cons.prems(1) by simp
      show "min beta e \<le> min m e"
        using Cons.prems(2) by (auto simp: min_def)
      show "alpha < min beta e"
        using False by (simp add: not_le)
    qed
    then obtain r where r: "min_values f xs alpha (min beta e) (min m e) = Some r"
      and r1: "r \<le> min m e"
      and r2: "min beta e \<le> r \<longrightarrow> r \<le> mins (map g xs)"
      and r3: "alpha < r \<and> r < min beta e \<longrightarrow> mins (map g xs) = r"
      and r4: "r \<le> alpha \<longrightarrow> min (min m e) (mins (map g xs)) \<le> r"
      by blast
    have res: "min_values f (x # xs) alpha beta m = Some r"
      using e False r by simp
    have c1: "r \<le> m" using r1 by simp
    have c2: "beta \<le> r \<longrightarrow> r \<le> mins (map g (x # xs))"
      using r1 r2 be by (auto simp: bounds_def min_def split: if_splits)
    have c3: "alpha < r \<and> r < beta \<longrightarrow> mins (map g (x # xs)) = r"
      using r1 r2 r3 be Cons.prems(2) by (auto simp: bounds_def min_def split: if_splits)
    have c4: "r \<le> alpha \<longrightarrow> min m (mins (map g (x # xs))) \<le> r"
      using r4 False by (auto simp: min_def split: if_splits)
    show ?thesis using res c1 c2 c3 c4 by blast
  qed
qed

lemma ab_value_bounds:
  "alpha < beta \<Longrightarrow> minimax R n p depth c = Some y \<Longrightarrow>
     \<exists>x. ab_value R n p depth alpha beta c = Some x \<and> bounds alpha beta x y"
proof (induction n arbitrary: p depth alpha beta y)
  case 0
  then show ?case by simp
next
  case (Suc n)
  let ?ms = "legal_moves R p"
  let ?h = "\<lambda>m. minimax R n (after_move R p m) (depth - 1) c"
  let ?g = "\<lambda>m. the (?h m)"
  let ?f = "\<lambda>a b m. ab_value R n (after_move R p m) (depth - 1) a b c"
  show ?case
  proof (cases "depth = 0 \<or> is_game_over R p")
    case True
    then show ?thesis using Suc.prems by (auto simp: bounds_def)
  next
    case False
    show ?thesis
    proof (cases "turn R p = c")
      case True
      from Suc.prems(2) False True obtain ys where
        ys: "those (map ?h ?ms) = Some ys" and y: "y = maxs ys"
        by auto
      from ys have some: "\<forall>m\<in>set ?ms. ?h m \<noteq> None" and ysg: "ys = map ?g ?ms"
        by (simp_all add: those_map_Some)
      have child: "\<And>m a. m \<in> set ?ms \<Longrightarrow> a < beta \<Longrightarrow> \<exists>e. ?f a beta m = Some e \<and> bounds a beta e (?g m)"
      proof -
        fix m a assume "m \<in> set ?ms" and "a < beta"
        then obtain v where "?h m = Some v" using some by auto
        with Suc.IH [OF \<open>a < beta\<close>, of "after_move R p m" "depth - 1" v]
        show "\<exists>e. ?f a beta m = Some e \<and> bounds a beta e (?g m)" by simp
      qed
      from max_values_bounds [of ?ms beta ?f ?g NegInf alpha, OF child _ Suc.prems(1)]
      obtain r where "max_values ?f ?ms alpha beta NegInf = Some r"
        and "r \<le> alpha \<longrightarrow> maxs (map ?g ?ms) \<le> r"
        and "alpha < r \<and> r < beta \<longrightarrow> maxs (map ?g ?ms) = r"
        and "beta \<le> r \<longrightarrow> r \<le> max NegInf (maxs (map ?g ?ms))"
        by auto
      then show ?thesis
        using False True y ysg by (simp add: bounds_def)
    next
      case c: False
      from Suc.prems(2) False c obtain ys where
        ys: "those (map ?h ?ms) = Some ys" and y: "y = mins ys"
        by auto
      from ys have some: "\<forall>m\<in>set ?ms. ?h m \<noteq> None" and ysg: "ys = map ?g ?ms"
        by (simp_all add: those_map_Some)
      have child: "\<And>m b. m \<in> set ?ms \<Longrightarrow> alpha < b \<Longrightarrow> \<exists>e. ?f alpha b m = Some e \<and> bounds alpha b e (?g m)"
      proof -
        fix m b assume "m \<in> set ?ms" and "alpha < b"
        then obtain v where "?h m = Some v" using some by auto
        with Suc.IH [OF \<open>alpha < b\<close>, of "after_move R p m" "depth - 1" v]
        show "\<exists>e. ?f alpha b m = Some e \<and> bounds alpha b e (?g m)" by simp
      qed
      from min_values_bounds [of ?ms alpha ?f ?g beta PosInf, OF child _ Suc.prems(1)]
      obtain r where "min_values ?f ?ms alpha beta PosInf = Some r"
        and "beta \<le> r \<longrightarrow> r \<le> mins (map ?g ?ms)"
        and "alpha < r \<and> r < beta \<longrightarrow> mins (map ?g ?ms) = r"
        and "r \<le> alpha \<longrightarrow> min PosInf (mins (map ?g ?ms)) \<le> r"
        by auto
      then show ?thesis
        using False c y ysg by (simp add: bounds_def)
    qed
  qed
qed

lemma ab_value_exact:
  "minimax R n p depth c = Some y \<Longrightarrow> ab_value R n p depth NegInf PosInf c = Some y"
  using ab_value_bounds [of NegInf PosInf R n p depth c y] bounds_full_window by auto

lemma minimax_total:
  "0 \<le> depth \<Longrightarrow> nat depth < n \<Longrightarrow> \<exists>y. minimax R n p depth c = Some y"
proof (induction n arbitrary: p depth)
  case 0
  then show ?case by simp
next
  case (Suc n)
  show ?case
  proof (cases "depth = 0 \<or> is_game_over R p")
    case True
    then show ?thesis by auto
  next
    case False
    then have d: "0 \<le> depth - 1" "nat (depth - 1) < n"
      using Suc.prems by auto
    have "\<forall>m\<in>set (legal_moves R p). minimax R n (after_move R p m) (depth - 1) c \<noteq> None"
      using Suc.IH [OF d] by auto
    then obtain ys where
      "those (map (\<lambda>m. minimax R n (after_move R p m) (depth - 1) c) (legal_moves R p)) = Some ys"
      by (simp add: those_map_Some)
    then show ?thesis using False by simp
  qed
qed

section \<open>The root selection, finite scores, the windows passed on\<close>

lemma maxs_upper: "v \<in> set vs \<Longrightarrow> v \<le> maxs vs"
  by (induction vs) (auto simp: max_def)

lemma mins_lower: "v \<in> set vs \<Longrightarrow> mins vs \<le> v"
  by (induction vs) (auto simp: min_def)

lemma first_with_Cons:
  "first_with v (m # ms) (x # vs) = (if x = v then Some m else first_with v ms vs)"
  by (simp add: first_with_def)

lemma root_pick_max:
  "length ms = length vs \<Longrightarrow>
     root_pick True (zip ms vs) bv bm =
       (max bv (maxs vs), if (maxs vs) \<le> bv then bm else first_with (maxs vs) ms vs)"
proof (induction ms arbitrary: vs bv bm)
  case Nil
  then show ?case by simp
next
  case (Cons m ms)
  then obtain x vs' where vs: "vs = x # vs'" and len: "length ms = length vs'"
    by (cases vs) auto
  let ?M = "maxs vs'"
  note IH = Cons.IH [OF len]
  show ?case
  proof (cases "bv < x")
    case True
    have step: "root_pick True (zip (m # ms) vs) bv bm = root_pick True (zip ms vs') x (Some m)"
      using True by (simp add: vs)
    have bx: "bv \<le> x" and nxb: "\<not> x \<le> bv"
      using True by (simp_all add: less_le_not_le)
    have e2: "max bv x = x" using bx by (rule max_absorb2)
    show ?thesis
    proof (cases "?M \<le> x")
      case le: True
      have e1: "max x ?M = x" using le by (rule max_absorb1)
      show ?thesis
        by (simp only: step IH) (simp add: vs first_with_Cons e1 e2 nxb le)
    next
      case gt: False
      have xM: "x \<le> ?M" using linear [of x ?M] gt by simp
      have e1: "max x ?M = ?M" using xM by (rule max_absorb2)
      have ne: "x \<noteq> ?M" using gt by auto
      have bM: "bv \<le> ?M" using bx xM by (rule order_trans)
      have e3: "max bv ?M = ?M" using bM by (rule max_absorb2)
      have nMb: "\<not> ?M \<le> bv"
      proof
        assume "?M \<le> bv"
        then have "?M \<le> x" using bx by (rule order_trans)
        then show False using gt by simp
      qed
      show ?thesis
        by (simp only: step IH) (simp add: vs first_with_Cons e1 e3 ne nMb gt)
    qed
  next
    case False
    have step: "root_pick True (zip (m # ms) vs) bv bm = root_pick True (zip ms vs') bv bm"
      using False by (simp add: vs)
    have xb: "x \<le> bv" using False linear [of x bv] by (auto simp: less_le_not_le)
    show ?thesis
    proof (cases "?M \<le> bv")
      case le: True
      have e0: "(max x ?M) \<le> bv" using xb le by (simp add: max.bounded_iff)
      have e4: "max bv (max x ?M) = bv" using e0 by (rule max_absorb1)
      have e5: "max bv ?M = bv" using le by (rule max_absorb1)
      show ?thesis
        by (simp only: step IH) (simp add: vs e0 e4 e5 le xb)
    next
      case gt: False
      have nMx: "\<not> ?M \<le> x"
      proof
        assume "?M \<le> x"
        then have "?M \<le> bv" using xb by (rule order_trans)
        then show False using gt by simp
      qed
      have xM: "x \<le> ?M" using linear [of x ?M] nMx by simp
      have e1: "max x ?M = ?M" using xM by (rule max_absorb2)
      have ne: "x \<noteq> ?M" using nMx by auto
      show ?thesis
        by (simp only: step IH) (simp add: vs first_with_Cons e1 ne gt)
    qed
  qed
qed

lemma root_pick_min:
  "length ms = length vs \<Longrightarrow>
     root_pick False (zip ms vs) bv bm =
       (min bv (mins vs), if bv \<le> (mins vs) then bm else first_with (mins vs) ms vs)"
proof (induction ms arbitrary: vs bv bm)
  case Nil
  then show ?case by simp
next
  case (Cons m ms)
  then obtain x vs' where vs: "vs = x # vs'" and len: "length ms = length vs'"
    by (cases vs) auto
  let ?M = "mins vs'"
  note IH = Cons.IH [OF len]
  show ?case
  proof (cases "x < bv")
    case True
    have step: "root_pick False (zip (m # ms) vs) bv bm = root_pick False (zip ms vs') x (Some m)"
      using True by (simp add: vs)
    have bx: "x \<le> bv" and nxb: "\<not> bv \<le> x"
      using True by (simp_all add: less_le_not_le)
    have e2: "min bv x = x" using bx by (rule min_absorb2)
    show ?thesis
    proof (cases "x \<le> ?M")
      case le: True
      have e1: "min x ?M = x" using le by (rule min_absorb1)
      show ?thesis
        by (simp only: step IH) (simp add: vs first_with_Cons e1 e2 nxb le)
    next
      case gt: False
      have xM: "?M \<le> x" using linear [of x ?M] gt by simp
      have e1: "min x ?M = ?M" using xM by (rule min_absorb2)
      have ne: "x \<noteq> ?M" using gt by auto
      have bM: "?M \<le> bv" using xM bx by (rule order_trans)
      have e3: "min bv ?M = ?M" using bM by (rule min_absorb2)
      have nMb: "\<not> bv \<le> ?M"
      proof
        assume "bv \<le> ?M"
        then have "x \<le> ?M" using bx by (rule order_trans [rotated])
        then show False using gt by simp
      qed
      show ?thesis
        by (simp only: step IH) (simp add: vs first_with_Cons e1 e3 ne nMb gt)
    qed
  next
    case False
    have step: "root_pick False (zip (m # ms) vs) bv bm = root_pick False (zip ms vs') bv bm"
      using False by (simp add: vs)
    have xb: "bv \<le> x" using False linear [of x bv] by (auto simp: less_le_not_le)
    show ?thesis
    proof (cases "bv \<le> ?M")
      case le: True
      have e0: "bv \<le> (min x ?M)" using xb le by (simp add: min.bounded_iff)
      have e4: "min bv (min x ?M) = bv" using e0 by (rule min_absorb1)
      have e5: "min bv ?M = bv" using le by (rule min_absorb1)
      show ?thesis
        by (simp only: step IH) (simp add: vs e0 e4 e5 le xb)
    next
      case gt: False
      have nMx: "\<not> x \<le> ?M"
      proof
        assume "x \<le> ?M"
        then have "bv \<le> ?M" using xb by (rule order_trans [rotated])
        then show False using gt by simp
      qed
      have xM: "?M \<le> x" using linear [of x ?M] nMx by simp
      have e1: "min x ?M = ?M" using xM by (rule min_absorb2)
      have ne: "x \<noteq> ?M" using nMx by auto
      show ?thesis
        by (simp only: step IH) (simp add: vs first_with_Cons e1 ne gt)
    qed
  qed
qed

lemma first_with_Some:
  "length ms = length vs \<Longrightarrow> first_with v ms vs = Some m \<Longrightarrow>
     \<exists>j<length ms. ms ! j = m \<and> vs ! j = v \<and> (\<forall>i<j. vs ! i \<noteq> v)"
proof (induction ms arbitrary: vs)
  case Nil
  then show ?case by (simp add: first_with_def)
next
  case (Cons m0 ms)
  then obtain x vs' where vs: "vs = x # vs'" and len: "length ms = length vs'"
    by (cases vs) auto
  show ?case
  proof (cases "x = v")
    case True
    then have "m = m0" using Cons.prems(2) by (simp add: vs first_with_Cons)
    then show ?thesis using True by (intro exI [of _ 0]) (simp add: vs)
  next
    case False
    then have "first_with v ms vs' = Some m"
      using Cons.prems(2) by (simp add: vs first_with_Cons)
    from Cons.IH [OF len this] obtain j where j: "j < length ms" "ms ! j = m" "vs' ! j = v"
      and before: "\<forall>i<j. vs' ! i \<noteq> v"
      by blast
    have "\<forall>i<Suc j. (x # vs') ! i \<noteq> v"
    proof (intro allI impI)
      fix i assume i: "i < Suc j"
      show "(x # vs') ! i \<noteq> v"
      proof (cases i)
        case 0
        then show ?thesis using False by simp
      next
        case (Suc k)
        then have "k < j" using i by simp
        then show ?thesis using before Suc by simp
      qed
    qed
    then show ?thesis
      using j by (intro exI [of _ "Suc j"]) (simp add: vs)
  qed
qed

lemma first_with_exists:
  "length ms = length vs \<Longrightarrow> v \<in> set vs \<Longrightarrow> \<exists>m\<in>set ms. first_with v ms vs = Some m"
proof (induction ms arbitrary: vs)
  case Nil
  then show ?case by simp
next
  case (Cons m0 ms)
  then obtain x vs' where vs: "vs = x # vs'" and len: "length ms = length vs'"
    by (cases vs) auto
  show ?case
  proof (cases "x = v")
    case True
    then show ?thesis by (simp add: vs first_with_Cons)
  next
    case False
    then have "v \<in> set vs'" using Cons.prems(2) by (simp add: vs)
    from Cons.IH [OF len this] obtain m where "m \<in> set ms" "first_with v ms vs' = Some m"
      by blast
    then show ?thesis using False by (simp add: vs first_with_Cons)
  qed
qed

lemma maxs_in_set: "maxs vs \<in> set vs \<or> maxs vs = NegInf"
proof (induction vs)
  case Nil
  show ?case by simp
next
  case (Cons v vs)
  have "max v (maxs vs) = v \<or> max v (maxs vs) = maxs vs"
    by (simp add: max_def)
  then show ?case using Cons.IH by auto
qed

lemma mins_in_set: "mins vs \<in> set vs \<or> mins vs = PosInf"
proof (induction vs)
  case Nil
  show ?case by simp
next
  case (Cons v vs)
  have "min v (mins vs) = v \<or> min v (mins vs) = mins vs"
    by (simp add: min_def)
  then show ?case using Cons.IH by auto
qed

lemma finite_score_simps [simp]:
  "finite_score (Fin k)" "\<not> finite_score NegInf" "\<not> finite_score PosInf"
  by (simp_all add: finite_score_def)

lemma finite_score_iff: "finite_score x \<longleftrightarrow> (\<exists>k. x = Fin k)"
  by (cases x) simp_all

lemma finite_max: "finite_score e \<Longrightarrow> m \<noteq> PosInf \<Longrightarrow> finite_score (max m e)"
  by (cases m; cases e) (auto simp: max_def)

lemma finite_min: "finite_score e \<Longrightarrow> m \<noteq> NegInf \<Longrightarrow> finite_score (min m e)"
  by (cases m; cases e) (auto simp: min_def)

lemma max_values_finite:
  assumes "\<And>x a b e. x \<in> set xs \<Longrightarrow> f a b x = Some e \<Longrightarrow> finite_score e"
    and "max_values f xs alpha beta m = Some r"
    and "m \<noteq> PosInf" and "xs \<noteq> [] \<or> finite_score m"
  shows "finite_score r"
  using assms
proof (induction xs arbitrary: alpha m)
  case Nil
  then show ?case by simp
next
  case (Cons x xs)
  from Cons.prems(2) obtain e where e: "f alpha beta x = Some e"
    by (auto split: option.splits)
  have fe: "finite_score e" using Cons.prems(1) [of x alpha beta e] e by simp
  have fm: "finite_score (max m e)" using fe Cons.prems(3) by (rule finite_max)
  show ?case
  proof (cases "beta \<le> max alpha e")
    case True
    then show ?thesis using Cons.prems(2) e fm by simp
  next
    case False
    then have r: "max_values f xs (max alpha e) beta (max m e) = Some r"
      using Cons.prems(2) e by simp
    have ninf: "max m e \<noteq> PosInf" using fm by auto
    have rest: "\<And>y a b e. y \<in> set xs \<Longrightarrow> f a b y = Some e \<Longrightarrow> finite_score e"
    proof -
      fix y a b e assume "y \<in> set xs" and "f a b y = Some e"
      then show "finite_score e" using Cons.prems(1) [of y a b e] by simp
    qed
    show ?thesis
      by (rule Cons.IH [OF rest r ninf]) (simp_all add: fm)
  qed
qed

lemma min_values_finite:
  assumes "\<And>x a b e. x \<in> set xs \<Longrightarrow> f a b x = Some e \<Longrightarrow> finite_score e"
    and "min_values f xs alpha beta m = Some r"
    and "m \<noteq> NegInf" and "xs \<noteq> [] \<or> finite_score m"
  shows "finite_score r"
  using assms
proof (induction xs arbitrary: beta m)
  case Nil
  then show ?case by simp
next
  case (Cons x xs)
  from Cons.prems(2) obtain e where e: "f alpha beta x = Some e"
    by (auto split: option.splits)
  have fe: "finite_score e" using Cons.prems(1) [of x alpha beta e] e by simp
  have fm: "finite_score (min m e)" using fe Cons.prems(3) by (rule finite_min)
  show ?case
  proof (cases "min beta e \<le> alpha")
    case True
    then show ?thesis using Cons.prems(2) e fm by simp
  next
    case False
    then have r: "min_values f xs alpha (min beta e) (min m e) = Some r"
      using Cons.prems(2) e by simp
    have ninf: "min m e \<noteq> NegInf" using fm by auto
    have rest: "\<And>y a b e. y \<in> set xs \<Longrightarrow> f a b y = Some e \<Longrightarrow> finite_score e"
    proof -
      fix y a b e assume "y \<in> set xs" and "f a b y = Some e"
      then show "finite_score e" using Cons.prems(1) [of y a b e] by simp
    qed
    show ?thesis
      by (rule Cons.IH [OF rest r ninf]) (simp_all add: fm)
  qed
qed

lemma ab_value_finite:
  "well_behaved R \<Longrightarrow> ab_value R n p depth alpha beta c = Some v \<Longrightarrow> finite_score v"
proof (induction n arbitrary: p depth alpha beta v)
  case 0
  then show ?case by simp
next
  case (Suc n)
  let ?f = "\<lambda>a b m. ab_value R n (after_move R p m) (depth - 1) a b c"
  have child: "\<And>x a b e. x \<in> set (legal_moves R p) \<Longrightarrow> ?f a b x = Some e \<Longrightarrow> finite_score e"
    using Suc.IH [OF Suc.prems(1)] by blast
  show ?case
  proof (cases "depth = 0 \<or> is_game_over R p")
    case True
    then show ?thesis using Suc.prems(2) by auto
  next
    case False
    then have ne: "legal_moves R p \<noteq> []"
      using Suc.prems(1) by (simp add: well_behaved_def)
    show ?thesis
    proof (cases "turn R p = c")
      case True
      then have "max_values ?f (legal_moves R p) alpha beta NegInf = Some v"
        using Suc.prems(2) False by simp
      then show ?thesis
        using max_values_finite [of "legal_moves R p" ?f alpha beta NegInf v] child ne by simp
    next
      case c: False
      then have "min_values ?f (legal_moves R p) alpha beta PosInf = Some v"
        using Suc.prems(2) False by simp
      then show ?thesis
        using min_values_finite [of "legal_moves R p" ?f alpha beta PosInf v] child ne by simp
    qed
  qed
qed

lemma max_values_total:
  "(\<And>x a b. x \<in> set xs \<Longrightarrow> f a b x \<noteq> None) \<Longrightarrow> max_values f xs alpha beta m \<noteq> None"
  by (induction xs arbitrary: alpha m) (auto split: option.splits)

lemma min_values_total:
  "(\<And>x a b. x \<in> set xs \<Longrightarrow> f a b x \<noteq> None) \<Longrightarrow> min_values f xs alpha beta m \<noteq> None"
  by (induction xs arbitrary: beta m) (auto split: option.splits)

lemma ab_value_total:
  "0 \<le> depth \<Longrightarrow> nat depth < n \<Longrightarrow> \<exists>v. ab_value R n p depth alpha beta c = Some v"
proof (induction n arbitrary: p depth alpha beta)
  case 0
  then show ?case by simp
next
  case (Suc n)
  show ?case
  proof (cases "depth = 0 \<or> is_game_over R p")
    case True
    then show ?thesis by auto
  next
    case False
    then have d: "0 \<le> depth - 1" "nat (depth - 1) < n"
      using Suc.prems by auto
    let ?f = "\<lambda>a b m. ab_value R n (after_move R p m) (depth - 1) a b c"
    have child: "\<And>x a b. x \<in> set (legal_moves R p) \<Longrightarrow> ?f a b x \<noteq> None"
      using Suc.IH [OF d] by auto
    have mx: "max_values ?f (legal_moves R p) alpha beta NegInf \<noteq> None"
      by (rule max_values_total) (rule child)
    have mn: "min_values ?f (legal_moves R p) alpha beta PosInf \<noteq> None"
      by (rule min_values_total) (rule child)
    show ?thesis
      using False mx mn by auto
  qed
qed

lemma max_loop_window:
  "(\<And>b' a'. alpha \<le> a' \<Longrightarrow> s b' a' beta = t b' a' beta) \<Longrightarrow>
     max_loop s R ms b alpha beta m = max_loop t R ms b alpha beta m"
proof (induction ms arbitrary: b alpha m)
  case Nil
  show ?case by simp
next
  case (Cons x xs)
  have first: "s (push R b x) alpha beta = t (push R b x) alpha beta"
    by (rule Cons.prems) simp
  have rest: "\<And>e b2. max_loop s R xs b2 (max alpha e) beta (max m e) =
                      max_loop t R xs b2 (max alpha e) beta (max m e)"
    by (rule Cons.IH) (simp add: Cons.prems le_max_iff_disj)
  show ?case
    by (simp add: first rest split: outcome.splits sum.splits prod.splits)
qed

lemma min_loop_window:
  "(\<And>b' b''. b'' \<le> beta \<Longrightarrow> s b' alpha b'' = t b' alpha b'') \<Longrightarrow>
     min_loop s R ms b alpha beta m = min_loop t R ms b alpha beta m"
proof (induction ms arbitrary: b beta m)
  case Nil
  show ?case by simp
next
  case (Cons x xs)
  have first: "s (push R b x) alpha beta = t (push R b x) alpha beta"
    by (rule Cons.prems) simp
  have rest: "\<And>e b2. min_loop s R xs b2 alpha (min beta e) (min m e) =
                      min_loop t R xs b2 alpha (min beta e) (min m e)"
    by (rule Cons.IH) (simp add: Cons.prems min_le_iff_disj)
  show ?case
    by (simp add: first rest split: outcome.splits sum.splits prod.splits)
qed

section \<open>What the root search returns\<close>

lemma child_values_length:
  "child_values R n p depth c = Some vs \<Longrightarrow> length vs = length (legal_moves R p)"
  by (simp add: child_values_def those_map_Some)

lemma root_search_eq:
  "root_search R n b depth c =
     with_board b (map_option
       (\<lambda>vs. if turn R (position b) = c
              then (maxs vs, if maxs vs = NegInf then None
                             else first_with (maxs vs) (legal_moves R (position b)) vs)
              else (mins vs, if mins vs = PosInf then None
                             else first_with (mins vs) (legal_moves R (position b)) vs))
       (child_values R n (position b) depth c))"
proof (cases "child_values R n (position b) depth c")
  case None
  then show ?thesis by (simp add: root_search_values)
next
  case (Some vs)
  then have len: "length (legal_moves R (position b)) = length vs"
    by (simp add: child_values_length)
  show ?thesis
  proof (cases "turn R (position b) = c")
    case True
    then show ?thesis
      using Some by (simp add: root_search_values root_pick_max [OF len])
  next
    case False
    then show ?thesis
      using Some by (simp add: root_search_values root_pick_min [OF len])
  qed
qed

lemma child_values_minimax:
  assumes "those (map (\<lambda>m. minimax R n (after_move R p m) (depth - 1) c) (legal_moves R p)) = Some vs"
  shows "child_values R n p depth c = Some vs"
proof -
  let ?h = "\<lambda>m. minimax R n (after_move R p m) (depth - 1) c"
  let ?a = "\<lambda>m. ab_value R n (after_move R p m) (depth - 1) NegInf PosInf c"
  from assms have some: "\<forall>m\<in>set (legal_moves R p). ?h m \<noteq> None"
    and vs: "vs = map (\<lambda>m. the (?h m)) (legal_moves R p)"
    by (simp_all add: those_map_Some)
  have eq: "\<And>m. m \<in> set (legal_moves R p) \<Longrightarrow> ?a m = ?h m"
  proof -
    fix m assume "m \<in> set (legal_moves R p)"
    then obtain y where y: "?h m = Some y" using some by auto
    then show "?a m = ?h m" by (simp add: ab_value_exact)
  qed
  have mapeq: "map ?a (legal_moves R p) = map ?h (legal_moves R p)"
    using eq by simp
  show ?thesis
    unfolding child_values_def mapeq by (rule assms)
qed

lemma maxs_finite:
  assumes "vs \<noteq> []" and "\<forall>v\<in>set vs. finite_score v"
  shows "finite_score (maxs vs)"
proof -
  obtain x xs where vs: "vs = x # xs" using assms(1) by (cases vs) auto
  have fx: "finite_score x" using assms(2) vs by simp
  have "x \<le> maxs vs" by (rule maxs_upper) (simp add: vs)
  then have "maxs vs \<noteq> NegInf" using fx by auto
  then have "maxs vs \<in> set vs" using maxs_in_set [of vs] by simp
  then show ?thesis using assms(2) by simp
qed

lemma mins_finite:
  assumes "vs \<noteq> []" and "\<forall>v\<in>set vs. finite_score v"
  shows "finite_score (mins vs)"
proof -
  obtain x xs where vs: "vs = x # xs" using assms(1) by (cases vs) auto
  have fx: "finite_score x" using assms(2) vs by simp
  have "mins vs \<le> x" by (rule mins_lower) (simp add: vs)
  then have "mins vs \<noteq> PosInf" using fx by auto
  then have "mins vs \<in> set vs" using mins_in_set [of vs] by simp
  then show ?thesis using assms(2) by simp
qed

lemma child_values_finite:
  assumes "well_behaved R" and "child_values R n p depth c = Some vs"
  shows "\<forall>v\<in>set vs. finite_score v"
proof -
  let ?a = "\<lambda>m. ab_value R n (after_move R p m) (depth - 1) NegInf PosInf c"
  from assms(2) have some: "\<forall>m\<in>set (legal_moves R p). ?a m \<noteq> None"
    and vs: "vs = map (\<lambda>m. the (?a m)) (legal_moves R p)"
    by (simp_all add: child_values_def those_map_Some)
  show ?thesis
  proof
    fix v assume "v \<in> set vs"
    then obtain m where m: "m \<in> set (legal_moves R p)" and v: "v = the (?a m)"
      using vs by auto
    then obtain w where w: "?a m = Some w" using some by auto
    then have "finite_score w" using assms(1) by (rule ab_value_finite [rotated])
    then show "finite_score v" using v w by simp
  qed
qed

lemma child_values_total:
  assumes "1 \<le> depth" and "nat depth \<le> n"
  shows "\<exists>vs. child_values R n p depth c = Some vs"
proof -
  have d: "0 \<le> depth - 1" "nat (depth - 1) < n" using assms by auto
  have "\<forall>m\<in>set (legal_moves R p). ab_value R n (after_move R p m) (depth - 1) NegInf PosInf c \<noteq> None"
    using ab_value_total [OF d] by auto
  then show ?thesis
    by (simp add: child_values_def those_map_Some)
qed

lemma root_choice_exists:
  assumes wb: "well_behaved R" and ne: "legal_moves R p \<noteq> []"
    and cv: "child_values R n p depth c = Some vs"
  shows "maxs vs \<noteq> NegInf \<and> (\<exists>m\<in>set (legal_moves R p). first_with (maxs vs) (legal_moves R p) vs = Some m)"
    and "mins vs \<noteq> PosInf \<and> (\<exists>m\<in>set (legal_moves R p). first_with (mins vs) (legal_moves R p) vs = Some m)"
proof -
  have len: "length (legal_moves R p) = length vs"
    using cv by (simp add: child_values_length)
  then have vne: "vs \<noteq> []" using ne by auto
  have fin: "\<forall>v\<in>set vs. finite_score v"
    using wb cv by (rule child_values_finite)
  have fmax: "finite_score (maxs vs)" using vne fin by (rule maxs_finite)
  have fmin: "finite_score (mins vs)" using vne fin by (rule mins_finite)
  have nmax: "maxs vs \<noteq> NegInf" using fmax by auto
  have nmin: "mins vs \<noteq> PosInf" using fmin by auto
  have "maxs vs \<in> set vs" using maxs_in_set [of vs] nmax by simp
  then have emax: "\<exists>m\<in>set (legal_moves R p). first_with (maxs vs) (legal_moves R p) vs = Some m"
    by (rule first_with_exists [OF len])
  have "mins vs \<in> set vs" using mins_in_set [of vs] nmin by simp
  then have emin: "\<exists>m\<in>set (legal_moves R p). first_with (mins vs) (legal_moves R p) vs = Some m"
    by (rule first_with_exists [OF len])
  show "maxs vs \<noteq> NegInf \<and> (\<exists>m\<in>set (legal_moves R p). first_with (maxs vs) (legal_moves R p) vs = Some m)"
    using nmax emax by simp
  show "mins vs \<noteq> PosInf \<and> (\<exists>m\<in>set (legal_moves R p). first_with (mins vs) (legal_moves R p) vs = Some m)"
    using nmin emin by simp
qed

lemma get_best_move_chosen:
  "root_search R n b depth c = Returns ((v, Some m), b') \<Longrightarrow>
     get_best_move R n pick b depth c = Returns (m, b')"
  by (simp add: get_best_move_def)

lemma value_of_alpha_beta:
  "value_of (alpha_beta R n b depth alpha beta c) = ab_value R n (position b) depth alpha beta c"
  by (simp add: alpha_beta_value value_of_def with_board_def split: option.splits)

section \<open>The claims\<close>

text \<open>
  C2. After \<open>get_best_move\<close> returns, the board is the one it was called with: the
  position and the stack of saved positions are unchanged. The same holds for every
  return of \<open>alpha_beta\<close>, whatever the window, so also for the returns from inside a loop
  when \<^verbatim>\<open>beta <= alpha\<close>; and \<open>alpha_beta\<close> never raises, so no \<^verbatim>\<open>pop\<close> meets an empty
  stack.
\<close>

theorem get_best_move_restores_board:
  "(get_best_move R n pick b depth c = Returns (move, b') \<longrightarrow> b' = b) \<and>
   (alpha_beta R n b depth alpha beta c = Returns (v, b') \<longrightarrow> b' = b) \<and>
   (\<forall>e. alpha_beta R n b depth alpha beta c \<noteq> Raises e)"
proof (intro conjI impI allI)
  assume "get_best_move R n pick b depth c = Returns (move, b')"
  then show "b' = b"
    by (auto simp: get_best_move_def split: outcome.splits option.splits sum.splits
             dest: root_search_restores)
next
  assume "alpha_beta R n b depth alpha beta c = Returns (v, b')"
  then show "b' = b"
    by (auto simp: alpha_beta_value with_board_def split: option.splits)
next
  fix e
  show "alpha_beta R n b depth alpha beta c \<noteq> Raises e"
    by (simp add: alpha_beta_value with_board_def split: option.splits)
qed

theorem get_best_move_restores_board_witness:
  "get_best_move small_game 4 0 \<lparr>position = [1], saved = [[]]\<rparr> 2 False
     = Returns (1, \<lparr>position = [1], saved = [[]]\<rparr>) \<and>
   alpha_beta small_game 4 \<lparr>position = [1], saved = [[]]\<rparr> 2 (Fin 0) (Fin 1) True
     = Returns (Fin 1, \<lparr>position = [1], saved = [[]]\<rparr>)"
proof -
  have g: "get_best_move small_game 4 0 \<lparr>position = [1], saved = [[]]\<rparr> 2 False
             = Returns (1, \<lparr>position = [1], saved = [[]]\<rparr>)"
    by code_simp
  have a: "alpha_beta small_game 4 \<lparr>position = [1], saved = [[]]\<rparr> 2 (Fin 0) (Fin 1) True
             = Returns (Fin 1, \<lparr>position = [1], saved = [[]]\<rparr>)"
    by code_simp
  show ?thesis
    using g a get_best_move_restores_board
      [of small_game 4 0 "\<lparr>position = [1], saved = [[]]\<rparr>" 2 False 1
        "\<lparr>position = [1], saved = [[]]\<rparr>" "Fin 0" "Fin 1" "Fin 1"]
    by simp
qed

text \<open>
  C3. For every board and two opposing sides \<open>A\<close> and \<open>B\<close>, \<open>evaluate_board\<close> returns for
  \<open>A\<close> the negation of what it returns for \<open>B\<close> (and raises for neither).
\<close>

theorem evaluate_board_antisymmetric:
  "A \<noteq> B \<Longrightarrow> \<exists>v. evaluate_board R b A = Inr v \<and> evaluate_board R b B = Inr (- v)"
  using material_opposite [of B A "piece_map R (position b)"]
  by (simp add: evaluate_board_material)

theorem evaluate_board_antisymmetric_witness:
  "WHITE \<noteq> BLACK \<and>
   (\<exists>v. evaluate_board small_game \<lparr>position = [1, 0], saved = []\<rparr> WHITE = Inr v \<and>
        evaluate_board small_game \<lparr>position = [1, 0], saved = []\<rparr> BLACK = Inr (- v))"
proof -
  have h: "WHITE \<noteq> BLACK"
    by (simp add: WHITE_def BLACK_def)
  show ?thesis
    using h evaluate_board_antisymmetric [OF h, of small_game "\<lparr>position = [1, 0], saved = []\<rparr>"]
    by simp
qed

text \<open>
  C4. With at least one nested call allowed, \<open>alpha_beta\<close> at depth 0 or at a position
  where the game is over returns the value of \<open>evaluate_board\<close> for that board and
  perspective, for every window, and leaves the board as it is.
\<close>

theorem alpha_beta_base_case:
  "depth = 0 \<or> is_game_over R (position b) \<Longrightarrow>
     \<exists>v. evaluate_board R b c = Inr v \<and>
         alpha_beta R (Suc n) b depth alpha beta c = Returns (Fin v, b)"
  by (auto simp: evaluate_board_material)

theorem alpha_beta_base_case_witness:
  "(0 = (0::int) \<or> is_game_over small_game (position \<lparr>position = [1, 0], saved = [[1], []]\<rparr>)) \<and>
   evaluate_board small_game \<lparr>position = [1, 0], saved = [[1], []]\<rparr> True = Inr 8 \<and>
   alpha_beta small_game (Suc 0) \<lparr>position = [1, 0], saved = [[1], []]\<rparr> 0 (Fin 3) (Fin 5) True
     = Returns (Fin 8, \<lparr>position = [1, 0], saved = [[1], []]\<rparr>)"
proof -
  have e: "evaluate_board small_game \<lparr>position = [1, 0], saved = [[1], []]\<rparr> True = Inr 8"
    by code_simp
  have "\<exists>v. evaluate_board small_game \<lparr>position = [1, 0], saved = [[1], []]\<rparr> True = Inr v \<and>
         alpha_beta small_game (Suc 0) \<lparr>position = [1, 0], saved = [[1], []]\<rparr> 0 (Fin 3) (Fin 5) True
           = Returns (Fin v, \<lparr>position = [1, 0], saved = [[1], []]\<rparr>)"
    by (rule alpha_beta_base_case) simp
  with e show ?thesis by auto
qed

text \<open>
  C6. \<open>evaluate_board\<close> returns the sum, over the pieces on the board, of the weight of the
  piece's type, added for a piece of the perspective's colour and subtracted otherwise;
  the weights are pawn 1, knight 3, bishop 3, rook 5, queen 9 and king 0.
\<close>

theorem evaluate_board_material_sum:
  "evaluate_board R b perspective =
     Inr (\<Sum>(sq, pc) \<leftarrow> piece_map R (position b).
            if color pc = perspective then weight (piece_type pc) else - weight (piece_type pc)) \<and>
   map weight [PAWN, KNIGHT, BISHOP, ROOK, QUEEN, KING] = [1, 3, 3, 5, 9, 0]"
proof -
  have "(\<lambda>(sq, pc). signed_weight perspective pc) =
        (\<lambda>(sq :: square, pc). if color pc = perspective then weight (piece_type pc) else - weight (piece_type pc))"
    by (simp add: signed_weight_def fun_eq_iff)
  then show ?thesis
    by (simp add: evaluate_board_material material_def)
qed


text \<open>
  C10. In a rules engine where every position that is not game-over has a legal move,
  every value \<open>alpha_beta\<close> returns is finite, for every depth and window; and at a depth
  of at least 0, with more nested calls allowed than the depth, it does return one.
\<close>

theorem alpha_beta_finite:
  assumes "well_behaved R"
  shows "(alpha_beta R n b depth alpha beta c = Returns (v, b') \<longrightarrow> (\<exists>k. v = Fin k)) \<and>
         (0 \<le> depth \<and> nat depth < n \<longrightarrow> (\<exists>k. alpha_beta R n b depth alpha beta c = Returns (Fin k, b)))"
proof (intro conjI impI)
  assume "alpha_beta R n b depth alpha beta c = Returns (v, b')"
  then have "ab_value R n (position b) depth alpha beta c = Some v"
    by (auto simp: alpha_beta_value with_board_def split: option.splits)
  then have "finite_score v" using assms by (rule ab_value_finite [rotated])
  then show "\<exists>k. v = Fin k" by (simp add: finite_score_iff)
next
  assume "0 \<le> depth \<and> nat depth < n"
  then obtain w where w: "ab_value R n (position b) depth alpha beta c = Some w"
    using ab_value_total [of depth n R "position b" alpha beta c] by auto
  then have "finite_score w" using assms by (rule ab_value_finite [rotated])
  then obtain k where "w = Fin k" by (auto simp: finite_score_iff)
  then show "\<exists>k. alpha_beta R n b depth alpha beta c = Returns (Fin k, b)"
    using w by (simp add: alpha_beta_value with_board_def)
qed

theorem alpha_beta_finite_witness:
  "well_behaved small_game \<and>
   alpha_beta small_game 4 start 3 (Fin 0) (Fin 1) True = Returns (Fin 1, start)"
proof -
  have wb: "well_behaved small_game"
    by (simp add: well_behaved_def small_game_def)
  have ev: "alpha_beta small_game 4 start 3 (Fin 0) (Fin 1) True = Returns (Fin 1, start)"
    by code_simp
  show ?thesis
    using wb ev alpha_beta_finite [OF wb, of 4 start 3 "Fin 0" "Fin 1" True "Fin 1" start]
    by simp
qed

text \<open>
  C8. In such a rules engine, at a position with a legal move: when the loop of
  \<open>get_best_move\<close> is over, its best move is one of the legal moves, not \<^verbatim>\<open>None\<close>, so
  \<open>get_best_move\<close> returns that move whatever \<^verbatim>\<open>random.choice\<close> would draw; and for a
  depth of at least 1, with at least as many nested calls allowed, the loop does finish.
\<close>

theorem best_move_assigned_in_loop:
  assumes "legal_moves R (position b) \<noteq> []" and "well_behaved R"
  shows "(root_search R n b depth c = Returns ((v, best_move), b') \<longrightarrow>
            (\<exists>m\<in>set (legal_moves R (position b)). best_move = Some m \<and>
               (\<forall>pick. get_best_move R n pick b depth c = Returns (m, b)))) \<and>
         (1 \<le> depth \<and> nat depth \<le> n \<longrightarrow>
            (\<exists>m\<in>set (legal_moves R (position b)).
               \<forall>pick. get_best_move R n pick b depth c = Returns (m, b)))"
proof -
  have main: "\<And>v best_move b'. root_search R n b depth c = Returns ((v, best_move), b') \<Longrightarrow>
          \<exists>m\<in>set (legal_moves R (position b)). best_move = Some m \<and>
             (\<forall>pick. get_best_move R n pick b depth c = Returns (m, b))"
  proof -
    fix v best_move b'
    assume rs: "root_search R n b depth c = Returns ((v, best_move), b')"
    then obtain vs where cv: "child_values R n (position b) depth c = Some vs"
      by (auto simp: root_search_eq with_board_def split: option.splits)
    note ch = root_choice_exists [OF assms(2) assms(1) cv]
    have b': "b' = b" using rs by (rule root_search_restores)
    from ch obtain m where m: "m \<in> set (legal_moves R (position b))"
      and bm: "best_move = Some m"
      using rs cv by (cases "turn R (position b) = c") (auto simp: root_search_eq with_board_def)
    have "\<forall>pick. get_best_move R n pick b depth c = Returns (m, b)"
      using rs bm b' by (simp add: get_best_move_chosen)
    then show "\<exists>m\<in>set (legal_moves R (position b)). best_move = Some m \<and>
             (\<forall>pick. get_best_move R n pick b depth c = Returns (m, b))"
      using m bm by blast
  qed
  have total: "1 \<le> depth \<and> nat depth \<le> n \<Longrightarrow>
          \<exists>m\<in>set (legal_moves R (position b)). \<forall>pick. get_best_move R n pick b depth c = Returns (m, b)"
  proof -
    assume d: "1 \<le> depth \<and> nat depth \<le> n"
    then obtain vs where cv: "child_values R n (position b) depth c = Some vs"
      using child_values_total [of depth n R "position b" c] by auto
    then obtain r where "root_search R n b depth c = Returns (r, b)"
      by (simp add: root_search_eq with_board_def)
    then obtain v bm where "root_search R n b depth c = Returns ((v, bm), b)"
      by (cases r) auto
    from main [OF this] show ?thesis by blast
  qed
  show ?thesis using main total by blast
qed

theorem best_move_assigned_in_loop_witness:
  "legal_moves small_game (position start) \<noteq> [] \<and> well_behaved small_game \<and>
   root_search small_game 3 start 3 True = Returns ((Fin 9, Some 1), start) \<and>
   get_best_move small_game 3 7 start 3 True = Returns (1, start)"
proof -
  have ne: "legal_moves small_game (position start) \<noteq> []"
    by (simp add: small_game_def start_def)
  have wb: "well_behaved small_game"
    by (simp add: well_behaved_def small_game_def)
  have rs: "root_search small_game 3 start 3 True = Returns ((Fin 9, Some 1), start)"
    by code_simp
  show ?thesis
    using ne wb rs best_move_assigned_in_loop [OF ne wb, of 3 3 True "Fin 9" "Some 1" start]
    by simp
qed

text \<open>
  C1. Whenever the exhaustive search of the root's moves comes back with a best score \<open>v\<close>
  and a choice (the first move in enumeration order with that score), the loop of
  \<open>get_best_move\<close>, which scores the moves with \<open>alpha_beta\<close>, ends with the same best
  score and the same best move, and leaves the board as it was. When a move is chosen,
  \<open>get_best_move\<close> returns it, and the score \<open>alpha_beta\<close> gave that move is \<open>v\<close>. At a
  root that is not game-over and a depth other than 0, \<open>v\<close> is the value of the exhaustive
  minimax search of the root at that depth. For a depth of at least 1, with at least as
  many nested calls allowed, the exhaustive search does come back.
\<close>

theorem pruned_root_equals_minimax:
  "(minimax_root R n (position b) depth c = Some (v, choice) \<longrightarrow>
      root_search R n b depth c = Returns ((v, choice), b) \<and>
      (\<forall>m. choice = Some m \<longrightarrow>
         (\<forall>pick. get_best_move R n pick b depth c = Returns (m, b)) \<and>
         value_of (alpha_beta R n (push R b m) (depth - 1) NegInf PosInf c) = Some v) \<and>
      (depth \<noteq> 0 \<and> \<not> is_game_over R (position b) \<longrightarrow>
         minimax R (Suc n) (position b) depth c = Some v)) \<and>
   (1 \<le> depth \<and> nat depth \<le> n \<longrightarrow> minimax_root R n (position b) depth c \<noteq> None)"
proof (intro conjI impI allI)
  let ?p = "position b"
  let ?ms = "legal_moves R ?p"
  let ?h = "\<lambda>m. minimax R n (after_move R ?p m) (depth - 1) c"
  assume mr: "minimax_root R n ?p depth c = Some (v, choice)"
  then obtain vs where th: "those (map ?h ?ms) = Some vs"
    by (auto simp: minimax_root_def split: option.splits)
  have cv: "child_values R n ?p depth c = Some vs"
    using th by (rule child_values_minimax)
  have vc: "(v, choice) = (if turn R ?p = c
              then (maxs vs, if maxs vs = NegInf then None else first_with (maxs vs) ?ms vs)
              else (mins vs, if mins vs = PosInf then None else first_with (mins vs) ?ms vs))"
    using mr th by (auto simp: minimax_root_def split: if_splits)
  show rs: "root_search R n b depth c = Returns ((v, choice), b)"
    using cv vc by (simp add: root_search_eq with_board_def)
  {
    fix m pick assume ch: "choice = Some m"
    show "get_best_move R n pick b depth c = Returns (m, b)"
      using rs ch by (simp add: get_best_move_chosen)
  }
  {
    fix m assume ch: "choice = Some m"
    have len: "length ?ms = length vs"
      using cv by (simp add: child_values_length)
    have fw: "first_with v ?ms vs = Some m"
      using vc ch by (auto split: if_splits)
    from first_with_Some [OF len fw] obtain j where j: "j < length ?ms" "?ms ! j = m" "vs ! j = v"
      by blast
    have vsmap: "vs = map (\<lambda>m. the (?h m)) ?ms" and some: "\<forall>m\<in>set ?ms. ?h m \<noteq> None"
      using th by (simp_all add: those_map_Some)
    have "m \<in> set ?ms" using j by auto
    then obtain y where y: "?h m = Some y" using some by auto
    have "vs ! j = the (?h (?ms ! j))" using vsmap j(1) by simp
    then have "y = v" using j y by simp
    then have "ab_value R n (after_move R ?p m) (depth - 1) NegInf PosInf c = Some v"
      using y by (simp add: ab_value_exact)
    then show "value_of (alpha_beta R n (push R b m) (depth - 1) NegInf PosInf c) = Some v"
      by (simp add: value_of_alpha_beta position_push)
  }
  {
    assume "depth \<noteq> 0 \<and> \<not> is_game_over R ?p"
    then show "minimax R (Suc n) ?p depth c = Some v"
      using th vc by (simp split: if_splits)
  }
next
  assume d: "1 \<le> depth \<and> nat depth \<le> n"
  then have d': "0 \<le> depth - 1" "nat (depth - 1) < n" by auto
  have "\<forall>m\<in>set (legal_moves R (position b)).
          minimax R n (after_move R (position b) m) (depth - 1) c \<noteq> None"
    using minimax_total [OF d'] by auto
  then obtain vs where
    "those (map (\<lambda>m. minimax R n (after_move R (position b) m) (depth - 1) c)
       (legal_moves R (position b))) = Some vs"
    by (simp add: those_map_Some)
  then show "minimax_root R n (position b) depth c \<noteq> None"
    by (simp add: minimax_root_def)
qed

theorem pruned_root_equals_minimax_witness:
  "minimax_root small_game 3 (position start) 3 True = Some (Fin 9, Some 1) \<and>
   root_search small_game 3 start 3 True = Returns ((Fin 9, Some 1), start) \<and>
   get_best_move small_game 3 7 start 3 True = Returns (1, start) \<and>
   value_of (alpha_beta small_game 3 (push small_game start 1) (3 - 1) NegInf PosInf True) = Some (Fin 9) \<and>
   minimax small_game (Suc 3) (position start) 3 True = Some (Fin 9)"
proof -
  have mr: "minimax_root small_game 3 (position start) 3 True = Some (Fin 9, Some 1)"
    by code_simp
  have d: "(3::int) \<noteq> 0 \<and> \<not> is_game_over small_game (position start)"
    by (simp add: small_game_def start_def)
  show ?thesis
    using mr d pruned_root_equals_minimax [of small_game 3 start 3 True "Fin 9" "Some 1"]
    by simp
qed

end
